theory Spec2Isabelle
  imports Complex_Main "HOL-Library.FSet" "HOL-Library.AList" "HOL-Library.Word"
    "HOL-Library.Monad_Syntax"
begin

section \<open>Data model\<close>

text \<open>
  A JavaScript string is a sequence of UTF-16 code units; \<open>length\<close> counts code units and
  \<open>charAt\<close> returns a string of one code unit.
\<close>

type_synonym jsstring = "16 word list"

text \<open>
  Modelled from the spec: the class \<open>Flashcard\<close> is declared in \<open>flashcards.ts\<close>, which is
  not among the sources. The spec gives it a front, a back, an optional hint and tags; the
  tests construct it as \<open>new Flashcard(front, back, hint, tags)\<close>. Membership of a card in a
  \<open>Set\<close> is by object identity, so the record carries the identity of the object in
  \<open>ref\<close>: two cards built separately differ in \<open>ref\<close> even when all their texts agree.
  A field that is \<open>undefined\<close> or \<open>null\<close> is \<open>None\<close>.
\<close>

record flashcard =
  ref :: nat
  front :: jsstring
  "back" :: "jsstring option"
  hint :: "jsstring option"
  tags :: "jsstring list"

text \<open>
  Modelled from the spec: the enum \<open>AnswerDifficulty\<close> is declared in \<open>flashcards.ts\<close> as
  well. The spec names its three variants. TypeScript does not check an enum at run time,
  so \<open>Unlisted\<close> stands for any run-time value that is none of the three variants.
\<close>

datatype AnswerDifficulty = Wrong | Hard | Easy | Unlisted

text \<open>
  \<open>BucketMap\<close> is \<open>Map<number, Set<Flashcard>>\<close>. A \<open>Map\<close> iterates in insertion order, so
  it is the list of its entries; \<open>Map.set\<close> is \<^const>\<open>AList.update\<close> (an existing key keeps
  its place, a new key goes to the end), \<open>Map.get\<close> is \<^const>\<open>map_of\<close>. Bucket numbers are
  integers. A \<open>Set<Flashcard>\<close> is a finite set of cards.
\<close>

type_synonym BucketMap = "(int \<times> flashcard fset) list"

definition map_has :: "('k \<times> 'v) list \<Rightarrow> 'k \<Rightarrow> bool" where
  "map_has m k = (map_of m k \<noteq> None)"

text \<open>
  What the operations require of a bucket map (\<open>@spec.requires buckets is a valid
  representation of flashcard buckets\<close>): a \<open>Map\<close> holds each key once, bucket numbers are not
  negative, and no card is filed in two buckets.
\<close>

fun disjoint_buckets :: "BucketMap \<Rightarrow> bool" where
  "disjoint_buckets [] = True"
| "disjoint_buckets ((k, s) # rest) =
     ((\<forall>(k', s') \<in> set rest. s |\<inter>| s' = {||}) \<and> disjoint_buckets rest)"

definition valid_keys :: "BucketMap \<Rightarrow> bool" where
  "valid_keys buckets = (distinct (map fst buckets) \<and> (\<forall>k \<in> set (map fst buckets). 0 \<le> k))"

definition valid_buckets :: "BucketMap \<Rightarrow> bool" where
  "valid_buckets buckets = (valid_keys buckets \<and> disjoint_buckets buckets)"

datatype error = RangeError | TypeError

subsection \<open>Numbers\<close>

text \<open>
  A JavaScript number is an IEEE 754 double: a finite value (a rational \<open>m * 2^e\<close> with
  \<open>|m| < 2^53\<close> and \<open>-1074 \<le> e \<le> 971\<close>; \<open>Num 0\<close> is \<open>+0\<close>), \<open>-0\<close>, an infinity or
  \<open>NaN\<close>. Every operation returns the double nearest to the exact result, a tie going to
  the one with the even significand, and an infinity from \<open>2^1024\<close> on.
\<close>

datatype number = Num rat | NegZero | PosInfinity | NegInfinity | NaN

text \<open>The number of binary digits of a positive integer.\<close>

function bitLength :: "int \<Rightarrow> nat" where
  "bitLength n = (if n \<le> 0 then 0 else Suc (bitLength (n div 2)))"
  by pat_completeness auto
termination
  by (relation "measure nat") auto

declare bitLength.simps [simp del]

text \<open>\<open>ilog2 x\<close> is the integer \<open>k\<close> with \<open>2^k \<le> x < 2^(k+1)\<close>, for \<open>x > 0\<close>.\<close>

definition ilog2 :: "rat \<Rightarrow> int" where
  "ilog2 x = (if 1 \<le> x then int (bitLength \<lfloor>x\<rfloor>) - 1
              else - int (bitLength (\<lceil>1 / x\<rceil> - 1)))"

definition pow2 :: "int \<Rightarrow> rat" where
  "pow2 e = (if 0 \<le> e then 2 ^ nat e else 1 / 2 ^ nat (- e))"

definition roundHalfEven :: "rat \<Rightarrow> int" where
  "roundHalfEven x =
     (let f = \<lfloor>x\<rfloor>; d = x - of_int f
      in if d < 1 / 2 then f else if 1 / 2 < d then f + 1 else if even f then f else f + 1)"

text \<open>
  Rounding to 53 significant binary digits, the last digit no finer than \<open>2^-1074\<close>
  (below \<open>2^-1022\<close> the doubles are evenly spaced), then the overflow and the sign of a
  zero.
\<close>

definition roundFinite :: "rat \<Rightarrow> rat" where
  "roundFinite x =
     (if x = 0 then 0
      else let e = max (ilog2 \<bar>x\<bar> - 52) (- 1074)
           in of_int (roundHalfEven (x / pow2 e)) * pow2 e)"

definition roundDouble :: "rat \<Rightarrow> number" where
  "roundDouble x =
     (let r = roundFinite x
      in if 2 ^ 1024 \<le> r then PosInfinity
         else if r \<le> - (2 ^ 1024) then NegInfinity
         else if r = 0 \<and> x < 0 then NegZero
         else Num r)"

text \<open>\<open>x + y\<close>. An exact sum of zero is \<open>+0\<close> unless both operands are \<open>-0\<close>.\<close>

fun addNumber :: "number \<Rightarrow> number \<Rightarrow> number" where
  "addNumber NaN y = NaN"
| "addNumber x NaN = NaN"
| "addNumber PosInfinity NegInfinity = NaN"
| "addNumber NegInfinity PosInfinity = NaN"
| "addNumber PosInfinity y = PosInfinity"
| "addNumber x PosInfinity = PosInfinity"
| "addNumber NegInfinity y = NegInfinity"
| "addNumber x NegInfinity = NegInfinity"
| "addNumber NegZero y = y"
| "addNumber x NegZero = x"
| "addNumber (Num a) (Num b) = (if a + b = 0 then Num 0 else roundDouble (a + b))"

text \<open>\<open>x / y\<close>, with the sign of the result the product of the signs.\<close>

fun negative :: "number \<Rightarrow> bool" where
  "negative (Num a) = (a < 0)"
| "negative NegZero = True"
| "negative NegInfinity = True"
| "negative PosInfinity = False"
| "negative NaN = False"

definition isZero :: "number \<Rightarrow> bool" where
  "isZero x = (x = Num 0 \<or> x = NegZero)"

definition isInfinite :: "number \<Rightarrow> bool" where
  "isInfinite x = (x = PosInfinity \<or> x = NegInfinity)"

definition divNumber :: "number \<Rightarrow> number \<Rightarrow> number" where
  "divNumber x y =
     (if x = NaN \<or> y = NaN then NaN
      else if (isZero x \<and> isZero y) \<or> (isInfinite x \<and> isInfinite y) then NaN
      else if isInfinite x \<or> isZero y
        then (if negative x \<noteq> negative y then NegInfinity else PosInfinity)
      else if isZero x \<or> isInfinite y
        then (if negative x \<noteq> negative y then NegZero else Num 0)
      else (case (x, y) of (Num a, Num b) \<Rightarrow> roundDouble (a / b) | _ \<Rightarrow> NaN))"

text \<open>\<open>x > 0\<close>.\<close>

fun greaterZero :: "number \<Rightarrow> bool" where
  "greaterZero (Num a) = (0 < a)"
| "greaterZero PosInfinity = True"
| "greaterZero x = False"

text \<open>
  Bucket numbers are integers, and the sum of two integer numbers is an integer again
  unless it is an infinity, which adding 1 to a number never is (the largest double plus
  1 is the largest double). So \<open>a + b\<close> on bucket numbers is the rounded sum as an integer.
\<close>

definition addInteger :: "int \<Rightarrow> int \<Rightarrow> int" where
  "addInteger a b = \<lfloor>roundFinite (of_int a + of_int b)\<rfloor>"

section \<open>The operations of \<open>algorithm.ts\<close>\<close>

subsection \<open>\<open>toBucketSets\<close>\<close>

text \<open>
  \<open>new Array(n)\<close> throws a \<open>RangeError\<close> unless \<open>n\<close> is an integer from 0 to \<open>2^32 - 1\<close>.
  \<open>result[bucketNum] = cardSet\<close> with a negative \<open>bucketNum\<close> sets a property of the array
  object and leaves its elements and its length alone; every other key is at most
  \<open>maxBucket\<close>, hence inside the array. The first loop leaves an array of \<open>maxBucket + 1\<close>
  empty sets; the second is the \<open>fold\<close> of \<open>fillStep\<close> over the entries.
\<close>

definition fillStep :: "int \<times> flashcard fset \<Rightarrow> flashcard fset list \<Rightarrow> flashcard fset list" where
  "fillStep = (\<lambda>(bucketNum, cardSet) result.
                 if 0 \<le> bucketNum then result[nat bucketNum := cardSet] else result)"

definition toBucketSets :: "BucketMap \<Rightarrow> error + flashcard fset list" where
  "toBucketSets buckets =
     (if length buckets = 0 then Inr []
      else
        let maxBucket = Max (set (map fst buckets));
            len = addInteger maxBucket 1
        in if len < 0 \<or> 4294967295 < len then Inl RangeError
           else Inr (fold fillStep buckets (replicate (nat len) {||})))"

subsection \<open>\<open>getBucketRange\<close>\<close>

record BucketRange =
  minBucket :: int
  maxBucket :: int



subsection \<open>\<open>practice\<close>\<close>

text \<open>
  \<open>buckets[i]\<close> is \<open>undefined\<close> outside the array, which the tests \<open>if (bucket0)\<close> and
  \<open>if (bucket)\<close> catch. Adding every card of a bucket to \<open>result\<close> is a union.
\<close>

definition arr_get :: "'a list \<Rightarrow> int \<Rightarrow> 'a option" where
  "arr_get xs i = (if 0 \<le> i \<and> i < int (length xs) then Some (xs ! nat i) else None)"

definition practice :: "flashcard fset list \<Rightarrow> int \<Rightarrow> flashcard fset" where
  "practice buckets day =
     (let result = {||} in
      if day = 0 then
        (case arr_get buckets 0 of
           Some bucket0 \<Rightarrow> result |\<union>| bucket0
         | None \<Rightarrow> result)
      else if day < int (length buckets) then
        (case arr_get buckets day of
           Some bucket \<Rightarrow> result |\<union>| bucket
         | None \<Rightarrow> result)
      else result)"

subsection \<open>\<open>update\<close>\<close>

text \<open>The first loop: every entry is copied into the new map, each set as a new set.\<close>

definition copyBuckets :: "BucketMap \<Rightarrow> BucketMap" where
  "copyBuckets buckets =
     fold (\<lambda>(bucketNum, cardSet) newBuckets. AList.update bucketNum cardSet newBuckets)
       buckets []"

text \<open>
  The second loop: the first entry whose set has the card gives \<open>currentBucket\<close> and loses
  the card, and the loop stops; \<open>currentBucket\<close> stays \<open>-1\<close> when no set has it.
\<close>

fun findCurrent :: "BucketMap \<Rightarrow> flashcard \<Rightarrow> int \<times> BucketMap" where
  "findCurrent [] c = (-1, [])"
| "findCurrent ((bucketNum, cardSet) # rest) c =
     (if c |\<in>| cardSet then (bucketNum, (bucketNum, cardSet |-| {|c|}) # rest)
      else (case findCurrent rest c of
              (currentBucket, rest') \<Rightarrow> (currentBucket, (bucketNum, cardSet) # rest')))"

text \<open>
  The \<open>switch\<close>. \<open>newBucket\<close> is declared without a value and the \<open>switch\<close> has no
  \<open>default\<close>: after a value that matches no \<open>case\<close> it is still \<open>undefined\<close> (\<open>None\<close>).
\<close>

fun chooseBucket :: "AnswerDifficulty \<Rightarrow> int \<Rightarrow> int option" where
  "chooseBucket Wrong currentBucket = Some 0"
| "chooseBucket Hard currentBucket = Some (if currentBucket = -1 then 0 else currentBucket)"
| "chooseBucket Easy currentBucket =
     Some (if currentBucket = -1 then 0 else addInteger currentBucket 1)"
| "chooseBucket Unlisted currentBucket = None"

text \<open>
  The last lines use \<open>newBucket\<close> as a key whatever it holds, so from there on the keys of
  \<open>newBuckets\<close> are run-time values: a number (\<open>Some k\<close>) or \<open>undefined\<close> (\<open>None\<close>).
  \<open>numbered\<close> is the map seen with such keys. Reading \<open>.add\<close> from a missing entry would
  throw a \<open>TypeError\<close>.
\<close>

definition numbered :: "BucketMap \<Rightarrow> (int option \<times> flashcard fset) list" where
  "numbered m = map (\<lambda>(bucketNum, cardSet). (Some bucketNum, cardSet)) m"

definition update ::
  "BucketMap \<Rightarrow> flashcard \<Rightarrow> AnswerDifficulty \<Rightarrow> error + (int option \<times> flashcard fset) list" where
  "update buckets c difficulty =
     (case findCurrent (copyBuckets buckets) c of
        (currentBucket, found) \<Rightarrow>
          let newBucket = chooseBucket difficulty currentBucket;
              newBuckets = numbered found;
              newBuckets' = (if \<not> map_has newBuckets newBucket
                             then AList.update newBucket {||} newBuckets else newBuckets)
          in (case map_of newBuckets' newBucket of
                None \<Rightarrow> Inl TypeError
              | Some cardSet \<Rightarrow> Inr (AList.update newBucket (finsert c cardSet) newBuckets')))"

subsection \<open>\<open>update\<close> on a heap of objects\<close>

text \<open>
  \<open>update\<close> builds its result by changing objects: it deletes the card from a \<open>Set\<close> and
  adds it to a \<open>Set\<close>. Whether the caller's map and sets are touched depends on which
  objects those are, so here the \<open>Map\<close> and \<open>Set\<close> objects live in a heap, a list of
  objects addressed by position; \<open>new\<close> appends an object. The functions return \<open>None\<close>
  where the heap does not hold what the types of \<open>update\<close> promise (an address that is
  not a \<open>Map\<close> or a \<open>Set\<close>, or a key of the given map that is not a number).
\<close>

type_synonym addr = nat

datatype obj = SetObj "flashcard fset" | MapObj "(int option \<times> addr) list"

type_synonym heap = "obj list"

definition alloc :: "heap \<Rightarrow> obj \<Rightarrow> addr \<times> heap" where
  "alloc h v = (length h, h @ [v])"

definition setAt :: "heap \<Rightarrow> addr \<Rightarrow> flashcard fset option" where
  "setAt h a =
     (if a < length h then (case h ! a of SetObj s \<Rightarrow> Some s | MapObj m \<Rightarrow> None) else None)"

definition mapAt :: "heap \<Rightarrow> addr \<Rightarrow> (int option \<times> addr) list option" where
  "mapAt h a =
     (if a < length h then (case h ! a of MapObj m \<Rightarrow> Some m | SetObj s \<Rightarrow> None) else None)"

text \<open>\<open>newBuckets.set(key, new Set(s))\<close>, used by the first loop and by line 164.\<close>

definition setNew :: "heap \<Rightarrow> addr \<Rightarrow> int option \<Rightarrow> flashcard fset \<Rightarrow> heap option" where
  "setNew h newBuckets key s =
     (case alloc h (SetObj s) of
        (a, h1) \<Rightarrow> do {
          m \<leftarrow> mapAt h1 newBuckets;
          Some (h1[newBuckets := MapObj (AList.update key a m)])
        })"

fun copyLoop :: "(int option \<times> addr) list \<Rightarrow> addr \<Rightarrow> heap \<Rightarrow> heap option" where
  "copyLoop [] newBuckets h = Some h"
| "copyLoop ((bucketNum, cardSet) # rest) newBuckets h =
     do {
       s \<leftarrow> setAt h cardSet;
       h' \<leftarrow> setNew h newBuckets bucketNum s;
       copyLoop rest newBuckets h'
     }"

fun findLoop :: "(int option \<times> addr) list \<Rightarrow> flashcard \<Rightarrow> heap \<Rightarrow> (int \<times> heap) option" where
  "findLoop [] c h = Some (-1, h)"
| "findLoop ((bucketNum, cardSet) # rest) c h =
     do {
       s \<leftarrow> setAt h cardSet;
       if c |\<in>| s
       then do { k \<leftarrow> bucketNum; Some (k, h[cardSet := SetObj (s |-| {|c|})]) }
       else findLoop rest c h
     }"

text \<open>\<open>newBuckets.get(key)!.add(c)\<close>.\<close>

definition addTo :: "heap \<Rightarrow> addr \<Rightarrow> int option \<Rightarrow> flashcard \<Rightarrow> heap option" where
  "addTo h newBuckets key c =
     do {
       m \<leftarrow> mapAt h newBuckets;
       a \<leftarrow> map_of m key;
       s \<leftarrow> setAt h a;
       Some (h[a := SetObj (finsert c s)])
     }"

definition updateHeap ::
  "heap \<Rightarrow> addr \<Rightarrow> flashcard \<Rightarrow> AnswerDifficulty \<Rightarrow> (addr \<times> heap) option" where
  "updateHeap h buckets c difficulty =
     (case alloc h (MapObj []) of
        (newBuckets, h1) \<Rightarrow> do {
          entries \<leftarrow> mapAt h1 buckets;
          h2 \<leftarrow> copyLoop entries newBuckets h1;
          copied \<leftarrow> mapAt h2 newBuckets;
          (currentBucket, h3) \<leftarrow> findLoop copied c h2;
          let newBucket = chooseBucket difficulty currentBucket;
          h4 \<leftarrow> (if \<not> map_has copied newBucket
                 then setNew h3 newBuckets newBucket {||} else Some h3);
          h5 \<leftarrow> addTo h4 newBuckets newBucket c;
          Some (newBuckets, h5)
        })"

text \<open>What a \<open>Map\<close> object holds: its entries, each \<open>Set\<close> read from the heap.\<close>

fun readEntries ::
  "heap \<Rightarrow> (int option \<times> addr) list \<Rightarrow> (int option \<times> flashcard fset) list option" where
  "readEntries h [] = Some []"
| "readEntries h ((k, a) # m) =
     do { s \<leftarrow> setAt h a; R \<leftarrow> readEntries h m; Some ((k, s) # R) }"

definition readMap :: "heap \<Rightarrow> addr \<Rightarrow> (int option \<times> flashcard fset) list option" where
  "readMap h a = do { m \<leftarrow> mapAt h a; readEntries h m }"

text \<open>
  \<open>freshMap h H nb m R\<close>: the heap \<open>H\<close> is \<open>h\<close> followed by newer objects; among the newer
  ones is a \<open>Map\<close> at \<open>nb\<close> with the entries \<open>m\<close>, whose sets are newer objects too, no
  two the same, and hold \<open>R\<close>.
\<close>

definition freshMap ::
  "heap \<Rightarrow> heap \<Rightarrow> addr \<Rightarrow> (int option \<times> addr) list
     \<Rightarrow> (int option \<times> flashcard fset) list \<Rightarrow> bool" where
  "freshMap h H nb m R =
     (take (length h) H = h \<and> length h \<le> nb \<and> mapAt H nb = Some m
      \<and> distinct (map fst m) \<and> distinct (map snd m)
      \<and> (\<forall>a \<in> snd ` set m. length h \<le> a \<and> a \<noteq> nb)
      \<and> list_all2 (\<lambda>(k, a) (k', s). k' = k \<and> setAt H a = Some s) m R)"

subsection \<open>\<open>getHint\<close>\<close>

text \<open>\<open>!s\<close> holds of a string that is \<open>undefined\<close>, \<open>null\<close> or empty.\<close>

definition falsy :: "jsstring option \<Rightarrow> bool" where
  "falsy s = (case s of None \<Rightarrow> True | Some t \<Rightarrow> t = [])"

definition str_length :: "jsstring option \<Rightarrow> nat" where
  "str_length s = (case s of None \<Rightarrow> 0 | Some t \<Rightarrow> length t)"

definition charAt :: "jsstring \<Rightarrow> nat \<Rightarrow> jsstring" where
  "charAt s i = (if i < length s then [s ! i] else [])"

definition getHint :: "flashcard \<Rightarrow> jsstring" where
  "getHint c =
     (if falsy (back c) \<or> str_length (back c) = 0 then []
      else if falsy (hint c) \<or> str_length (hint c) = 0 then []
      else (case back c of Some b \<Rightarrow> charAt b 0 | None \<Rightarrow> []))"

subsection \<open>\<open>computeProgress\<close>\<close>

record HistoryEntry =
  card_h :: flashcard
  difficulty :: AnswerDifficulty
  timestamp :: int

record Progress =
  totalCards :: number
  masteredCards :: number
  strugglingCards :: number
  averageBucket :: number

text \<open>\<open>cardSet.size\<close>, a count, as a number.\<close>

definition sizeOf :: "flashcard fset \<Rightarrow> number" where
  "sizeOf s = Num (of_nat (fcard s))"

text \<open>
  The innermost loop, for one card: the number of the first entry whose set has the card
  is added to \<open>totalBucketSum\<close> (nothing is added when no set has it).
\<close>

fun addBucketOf :: "BucketMap \<Rightarrow> flashcard \<Rightarrow> number \<Rightarrow> number" where
  "addBucketOf [] c bucketSum = bucketSum"
| "addBucketOf ((bucketNum, s) # rest) c bucketSum =
     (if c |\<in>| s then addNumber bucketSum (Num (of_int bucketNum))
      else addBucketOf rest c bucketSum)"

text \<open>
  The first loop, with the state \<open>(totalCards, totalBucketSum)\<close>. A \<open>Set\<close> is visited in
  the order in which its cards were inserted, which a finite set does not record:
  \<open>cardsOf s\<close> is the order in which \<open>for (const card of cardSet)\<close> visits the set \<open>s\<close>.
\<close>

definition countCards ::
  "(flashcard fset \<Rightarrow> flashcard list) \<Rightarrow> BucketMap \<Rightarrow> number \<times> number" where
  "countCards cardsOf buckets =
     fold (\<lambda>(bucketNum, cardSet) (totalC, bucketSum).
             (addNumber totalC (sizeOf cardSet),
              fold (addBucketOf buckets) (cardsOf cardSet) bucketSum))
       buckets (Num 0, Num 0)"

definition countMastered :: "BucketMap \<Rightarrow> number" where
  "countMastered buckets =
     fold (\<lambda>(bucketNum, cardSet) mastered.
             if bucketNum \<ge> 2 then addNumber mastered (sizeOf cardSet) else mastered)
       buckets (Num 0)"

definition computeProgress ::
  "(flashcard fset \<Rightarrow> flashcard list) \<Rightarrow> BucketMap \<Rightarrow> HistoryEntry list \<Rightarrow> Progress" where
  "computeProgress cardsOf buckets history =
     (case countCards cardsOf buckets of
        (totalC, totalBucketSum) \<Rightarrow>
          \<lparr>totalCards = totalC,
           masteredCards = countMastered buckets,
           strugglingCards = (case map_of buckets 0 of
                                None \<Rightarrow> Num 0
                              | Some s \<Rightarrow> sizeOf s),
           averageBucket = (if greaterZero totalC then divNumber totalBucketSum totalC
                            else Num 0)\<rparr>)"

section \<open>Notions of the specification\<close>

text \<open>The bucket numbers whose sets have cards, and the invariant of the dense form as
  the specification words it: the length is the largest occupied bucket number plus one,
  or 0 when no bucket has cards.\<close>

definition occupiedKeys :: "BucketMap \<Rightarrow> int list" where
  "occupiedKeys buckets = map fst (filter (\<lambda>(k, s). s \<noteq> {||}) buckets)"

definition denseInvariant :: "BucketMap \<Rightarrow> flashcard fset list \<Rightarrow> bool" where
  "denseInvariant buckets dense =
     (int (length dense) =
        (if occupiedKeys buckets = [] then 0 else Max (set (occupiedKeys buckets)) + 1))"

text \<open>A bucket map whose dense form fits an array: \<open>new Array(maxBucket + 1)\<close> takes a
  length of at most \<open>2^32 - 1\<close>, so every key is at most \<open>2^32 - 2\<close>.\<close>

definition arraySized :: "BucketMap \<Rightarrow> bool" where
  "arraySized buckets = (\<forall>k \<in> set (map fst buckets). k < 4294967295)"



section \<open>Example data\<close>

definition cardA :: flashcard where
  "cardA = \<lparr>ref = 1, front = [0x51], back = Some [0x41, 0x6E], hint = Some [0x48], tags = []\<rparr>"

definition cardB :: flashcard where
  "cardB = \<lparr>ref = 2, front = [0x51], back = Some [0x41, 0x6E], hint = Some [0x48], tags = []\<rparr>"

definition cardC :: flashcard where
  "cardC = \<lparr>ref = 3, front = [0x51], back = Some [0x42], hint = None, tags = []\<rparr>"

definition bucketsEx :: BucketMap where
  "bucketsEx = [(3, {|cardB|}), (0, {||}), (1, {|cardA|}), (5, {||})]"

definition bucketsABC :: BucketMap where
  "bucketsABC = [(0, {|cardA|}), (1, {|cardB|}), (2, {|cardC|})]"

definition bucketsAB :: BucketMap where
  "bucketsAB = [(0, {||}), (1, {|cardA, cardB|})]"



text \<open>An order of visiting for sets of the three example cards.\<close>

definition cardsEx :: "flashcard fset \<Rightarrow> flashcard list" where
  "cardsEx s = filter (\<lambda>c. c |\<in>| s) [cardA, cardB, cardC]"

definition heapEx :: heap where
  "heapEx = [SetObj {||}, SetObj {|cardA, cardB|}, MapObj [(Some 0, 0), (Some 1, 1)]]"

section \<open>Numbers: sums and quotients of small integers\<close>

lemma bitLength_le: "n < 2 ^ k \<Longrightarrow> bitLength n \<le> k"
proof (induction k arbitrary: n)
  case 0
  then show ?case by (simp add: bitLength.simps)
next
  case (Suc k)
  show ?case
  proof (cases "n \<le> 0")
    case True
    then show ?thesis by (simp add: bitLength.simps)
  next
    case False
    have "n div 2 < 2 ^ k" using Suc.prems by simp
    then have "bitLength (n div 2) \<le> k" by (rule Suc.IH)
    then show ?thesis using False by (subst bitLength.simps) simp
  qed
qed

lemma roundHalfEven_of_int: "roundHalfEven (of_int m) = m"
  by (simp add: roundHalfEven_def)

lemma roundFinite_small:
  assumes "\<bar>n\<bar> < 2 ^ 53"
  shows "roundFinite (of_int n) = of_int n"
proof (cases "n = 0")
  case True
  then show ?thesis by (simp add: roundFinite_def)
next
  case False
  define e where "e = max (ilog2 \<bar>of_int n\<bar> - 52) (- 1074)"
  define k where "k = nat (- e)"
  have one: "(1::rat) \<le> \<bar>of_int n\<bar>"
  proof -
    have "1 \<le> \<bar>n\<bar>" using False by simp
    then have "(of_int 1 :: rat) \<le> of_int \<bar>n\<bar>" by (simp only: of_int_le_iff)
    then show ?thesis by simp
  qed
  have fl: "\<lfloor>\<bar>of_int n :: rat\<bar>\<rfloor> = \<bar>n\<bar>"
  proof -
    have "\<bar>of_int n :: rat\<bar> = of_int \<bar>n\<bar>" by simp
    then show ?thesis by (simp only: floor_of_int)
  qed
  have "bitLength \<bar>n\<bar> \<le> 53" using assms by (rule bitLength_le)
  then have "ilog2 \<bar>of_int n\<bar> \<le> 52" using one by (simp add: ilog2_def fl)
  then have e: "e \<le> 0" by (simp add: e_def)
  then have p: "pow2 e = 1 / 2 ^ k" by (cases "e = 0") (simp_all add: pow2_def k_def)
  have "of_int n / pow2 e = (of_int (n * 2 ^ k) :: rat)" by (simp add: p)
  then have "roundHalfEven (of_int n / pow2 e) = n * 2 ^ k"
    by (simp only: roundHalfEven_of_int)
  then have "of_int (roundHalfEven (of_int n / pow2 e)) * pow2 e = (of_int n :: rat)"
    by (simp add: p)
  then show ?thesis using False by (simp add: roundFinite_def e_def [symmetric] Let_def)
qed

lemma bitLength_2_53: "bitLength 9007199254740992 = 54"
  by (simp add: bitLength.simps)

lemma roundFinite_2_53: "roundFinite 9007199254740992 = 9007199254740992"
proof -
  have "ilog2 9007199254740992 = 53" by (simp add: ilog2_def bitLength_2_53)
  then show ?thesis by (simp add: roundFinite_def pow2_def roundHalfEven_def Let_def)
qed

lemma roundFinite_neg_2_53: "roundFinite (- 9007199254740992) = - 9007199254740992"
proof -
  have "ilog2 9007199254740992 = 53" by (simp add: ilog2_def bitLength_2_53)
  then show ?thesis by (simp add: roundFinite_def pow2_def roundHalfEven_def Let_def)
qed

lemma roundFinite_int:
  assumes "\<bar>n\<bar> \<le> 2 ^ 53"
  shows "roundFinite (of_int n) = of_int n"
proof -
  consider "\<bar>n\<bar> < 2 ^ 53" | "n = 9007199254740992" | "n = - 9007199254740992"
    using assms by fastforce
  then show ?thesis
  proof cases
    case 1
    then show ?thesis by (rule roundFinite_small)
  next
    case 2
    then show ?thesis by (simp add: roundFinite_2_53)
  next
    case 3
    then show ?thesis by (simp add: roundFinite_neg_2_53)
  qed
qed

lemma addInteger_exact: "\<bar>a + b\<bar> \<le> 2 ^ 53 \<Longrightarrow> addInteger a b = a + b"
proof -
  assume "\<bar>a + b\<bar> \<le> 2 ^ 53"
  then have "roundFinite (of_int (a + b)) = of_int (a + b)" by (rule roundFinite_int)
  then show ?thesis by (simp add: addInteger_def)
qed





section \<open>The dense form\<close>

text \<open>Filling keeps the length, and with each key once the entry at an index is the set of
  that key.\<close>

lemma length_fill [simp]: "length (fold fillStep S r) = length r"
  by (induction S arbitrary: r) (auto simp: fillStep_def)

lemma nth_fill:
  "distinct (map fst S) \<Longrightarrow> \<forall>k \<in> set (map fst S). 0 \<le> k \<Longrightarrow> i < length r \<Longrightarrow>
   fold fillStep S r ! i = (case map_of S (int i) of Some s \<Rightarrow> s | None \<Rightarrow> r ! i)"
proof (induction S arbitrary: r)
  case Nil
  then show ?case by simp
next
  case (Cons p S)
  obtain k s where p: "p = (k, s)" by (cases p)
  from Cons.prems have d: "distinct (map fst S)" and nn: "\<forall>k \<in> set (map fst S). 0 \<le> k"
    and k0: "0 \<le> k" and kS: "k \<notin> fst ` set S"
    by (auto simp: p)
  have step: "fold fillStep (p # S) r = fold fillStep S (r[nat k := s])"
    using k0 by (simp add: p fillStep_def)
  have ih: "fold fillStep S (r[nat k := s]) ! i =
      (case map_of S (int i) of Some s' \<Rightarrow> s' | None \<Rightarrow> r[nat k := s] ! i)"
    using Cons.IH [OF d nn, of "r[nat k := s]"] Cons.prems(3) by simp
  show ?case
  proof (cases "int i = k")
    case True
    then have "map_of S (int i) = None" using kS by (simp add: map_of_eq_None_iff)
    moreover have "nat k = i" using True by simp
    ultimately show ?thesis using ih step True Cons.prems(3) by (simp add: p)
  next
    case False
    then have "nat k \<noteq> i" using k0 by auto
    then show ?thesis using ih step False by (simp add: p split: option.splits)
  qed
qed

lemma toBucketSets_fill:
  "toBucketSets S = (if S = [] then Inr [] else
     if addInteger (Max (set (map fst S))) 1 < 0 \<or> 4294967295 < addInteger (Max (set (map fst S))) 1
     then Inl RangeError
     else Inr (fold fillStep S (replicate (nat (addInteger (Max (set (map fst S))) 1)) {||})))"
  by (simp add: toBucketSets_def Let_def)

lemma key_le_Max: "(k, s) \<in> set S \<Longrightarrow> k \<le> Max (set (map fst S))"
  by (rule Max_ge) force+

lemma toBucketSets_valid:
  assumes "valid_keys S" "S \<noteq> []" "arraySized S"
  shows "toBucketSets S = Inr (fold fillStep S (replicate (nat (Max (set (map fst S)) + 1)) {||}))"
proof -
  let ?m = "Max (set (map fst S))"
  obtain k s where "(k, s) \<in> set S" using assms(2) by (cases S) auto
  then have "0 \<le> k" "k \<le> ?m"
    using assms(1) key_le_Max by (force simp: valid_keys_def)+
  then have lo: "0 \<le> ?m" by simp
  have "?m \<in> set (map fst S)" using assms(2) by (intro Max_in) simp_all
  then have hi: "?m < 4294967295" using assms(3) unfolding arraySized_def by blast
  have "\<bar>?m + 1\<bar> \<le> 2 ^ 53" using lo hi by simp
  then have ex: "addInteger ?m 1 = ?m + 1" by (rule addInteger_exact)
  have ok: "\<not> (?m + 1 < 0 \<or> 4294967295 < ?m + 1)" using lo hi by linarith
  show ?thesis by (simp only: toBucketSets_fill if_not_P [OF assms(2)] ex if_not_P [OF ok])
qed

lemma toBucketSets_char:
  assumes "valid_keys S" and "arraySized S"
  shows "\<exists>d. toBucketSets S = Inr d
           \<and> int (length d) = (if S = [] then 0 else Max (set (map fst S)) + 1)
           \<and> (\<forall>i < length d. d ! i = (case map_of S (int i) of Some s \<Rightarrow> s | None \<Rightarrow> {||}))
           \<and> (\<forall>k s. map_of S k = Some s \<longrightarrow> 0 \<le> k \<and> nat k < length d)"
proof (cases "S = []")
  case True
  then show ?thesis by (simp add: toBucketSets_def)
next
  case ne: False
  let ?m = "Max (set (map fst S))"
  let ?d = "fold fillStep S (replicate (nat (?m + 1)) {||})"
  have dist: "distinct (map fst S)" and nn: "\<forall>k \<in> set (map fst S). 0 \<le> k"
    using assms(1) by (simp_all add: valid_keys_def)
  have eq: "toBucketSets S = Inr ?d" using assms(1) ne assms(2) by (rule toBucketSets_valid)
  obtain k0 s0 where "(k0, s0) \<in> set S" using ne by (cases S) auto
  then have m0: "0 \<le> ?m" using nn key_le_Max [of k0 s0 S] by force
  have len: "int (length ?d) = (if S = [] then 0 else ?m + 1)" using m0 ne by simp
  have nth: "\<forall>i < length ?d. ?d ! i = (case map_of S (int i) of Some s \<Rightarrow> s | None \<Rightarrow> {||})"
    using nth_fill [OF dist nn] by (simp split: option.splits)
  have keys: "\<forall>k s. map_of S k = Some s \<longrightarrow> 0 \<le> k \<and> nat k < length ?d"
  proof (intro allI impI)
    fix k s assume ks: "map_of S k = Some s"
    then have mem: "(k, s) \<in> set S" by (rule map_of_SomeD)
    then have k0: "0 \<le> k" using nn by force
    have "k \<le> ?m" using mem by (rule key_le_Max)
    then show "0 \<le> k \<and> nat k < length ?d" using k0 m0 by simp
  qed
  show ?thesis using eq len nth keys by blast
qed




lemma occupiedKeys_subset: "set (occupiedKeys S) \<subseteq> set (map fst S)"
  by (auto simp: occupiedKeys_def)

lemma occupiedKeys_iff:
  "distinct (map fst S) \<Longrightarrow> k \<in> set (occupiedKeys S) \<longleftrightarrow> (\<exists>s. map_of S k = Some s \<and> s \<noteq> {||})"
  by (force simp: occupiedKeys_def)

text \<open>
  C7 claims that the length of \<open>toBucketSets S\<close> is the largest bucket number whose set has
  cards, plus one, and 0 when no bucket has cards. The map with the one entry \<open>0 \<mapsto> {}\<close> is
  a valid bucket map in which no bucket has cards, and its dense form has length 1.
\<close>

theorem toBucketSets_invariant_counterexample:
  "valid_buckets [(0, {||})] \<and> toBucketSets [(0, {||})] = Inr [{||}]
   \<and> \<not> denseInvariant [(0, {||})] [{||}]"
proof -
  have "addInteger 0 1 = 0 + 1" by (rule addInteger_exact) simp
  then show ?thesis
    by (simp add: valid_buckets_def valid_keys_def toBucketSets_def fillStep_def
          denseInvariant_def occupiedKeys_def)
qed

text \<open>
  C7, amended: for every bucket map \<open>S\<close> (each key once, no negative key) whose keys are all
  at most \<open>2^32 - 2\<close>, the length of \<open>toBucketSets S\<close> is the largest key of \<open>S\<close> plus one,
  whether or not that key's set has cards, and 0 when \<open>S\<close> has no keys. The invariant of
  the dense form (length = largest occupied bucket number + 1, or 0 when no bucket has
  cards) holds of the result exactly when \<open>S\<close> has no keys or the set at the largest key of
  \<open>S\<close> has cards.
\<close>

theorem toBucketSets_length_by_largest_key:
  assumes "valid_keys S" and "arraySized S"
  shows "\<exists>d. toBucketSets S = Inr d
           \<and> int (length d) = (if S = [] then 0 else Max (set (map fst S)) + 1)
           \<and> (denseInvariant S d \<longleftrightarrow>
                (S = [] \<or> (\<exists>s. map_of S (Max (set (map fst S))) = Some s \<and> s \<noteq> {||})))"
proof -
  obtain d where eq: "toBucketSets S = Inr d"
    and len: "int (length d) = (if S = [] then 0 else Max (set (map fst S)) + 1)"
    using toBucketSets_char [OF assms] by blast
  have dist: "distinct (map fst S)" using assms(1) by (simp add: valid_keys_def)
  let ?M = "Max (set (map fst S))"
  have inv: "denseInvariant S d \<longleftrightarrow> (S = [] \<or> (\<exists>s. map_of S ?M = Some s \<and> s \<noteq> {||}))"
  proof (cases "S = []")
    case True
    then show ?thesis using len by (simp add: denseInvariant_def occupiedKeys_def)
  next
    case ne: False
    have len': "int (length d) = ?M + 1" using len ne by simp
    have M0: "0 \<le> ?M"
    proof -
      obtain k0 s0 where "(k0, s0) \<in> set S" using ne by (cases S) auto
      then show ?thesis using assms(1) key_le_Max [of k0 s0 S] by (force simp: valid_keys_def)
    qed
    have upper: "\<forall>k \<in> set (occupiedKeys S). k \<le> ?M"
      using occupiedKeys_subset [of S] by (auto intro!: Max_ge)
    show ?thesis
    proof
      assume "denseInvariant S d"
      then have e: "?M + 1 = (if occupiedKeys S = [] then 0 else Max (set (occupiedKeys S)) + 1)"
        using len' by (simp add: denseInvariant_def)
      then have one: "occupiedKeys S \<noteq> []" using M0 by (auto split: if_splits)
      then have "Max (set (occupiedKeys S)) = ?M" using e by simp
      moreover have "Max (set (occupiedKeys S)) \<in> set (occupiedKeys S)"
        using one by (intro Max_in) simp_all
      ultimately have "?M \<in> set (occupiedKeys S)" by simp
      then show "S = [] \<or> (\<exists>s. map_of S ?M = Some s \<and> s \<noteq> {||})"
        using dist by (simp add: occupiedKeys_iff)
    next
      assume "S = [] \<or> (\<exists>s. map_of S ?M = Some s \<and> s \<noteq> {||})"
      then have mem: "?M \<in> set (occupiedKeys S)" using ne dist by (simp add: occupiedKeys_iff)
      then have one: "occupiedKeys S \<noteq> []" by auto
      have "Max (set (occupiedKeys S)) = ?M"
        using mem upper by (intro Max_eqI) simp_all
      then show "denseInvariant S d" using len' one by (simp add: denseInvariant_def)
    qed
  qed
  show ?thesis using eq len inv by blast
qed

theorem toBucketSets_length_by_largest_key_witness:
  "valid_keys bucketsEx \<and> arraySized bucketsEx
   \<and> (\<exists>d. toBucketSets bucketsEx = Inr d \<and> int (length d) = 6 \<and> \<not> denseInvariant bucketsEx d)"
proof -
  have v: "valid_keys bucketsEx" by (simp add: valid_keys_def bucketsEx_def)
  have a: "arraySized bucketsEx" by (simp add: arraySized_def bucketsEx_def)
  have m: "Max (set (map fst bucketsEx)) = 5" "bucketsEx \<noteq> []" "map_of bucketsEx 5 = Some {||}"
    by (simp_all add: bucketsEx_def)
  obtain d where d: "toBucketSets bucketsEx = Inr d"
      "int (length d) = (if bucketsEx = [] then 0 else Max (set (map fst bucketsEx)) + 1)"
      "denseInvariant bucketsEx d \<longleftrightarrow>
        (bucketsEx = [] \<or> (\<exists>s. map_of bucketsEx (Max (set (map fst bucketsEx))) = Some s \<and> s \<noteq> {||}))"
    using toBucketSets_length_by_largest_key [OF v a] by blast
  have "int (length d) = 6" using d(2) by (simp only: m if_False)
  moreover have "\<not> denseInvariant bucketsEx d" using d(3) by (simp only: m) simp
  ultimately show ?thesis using v a d(1) by blast
qed

section \<open>The occupied range\<close>











section \<open>Selecting the cards of a day\<close>

text \<open>
  C2: for every dense bucket array \<open>B\<close> and every day \<open>day \<ge> 0\<close>: on day 0, \<open>practice\<close>
  returns the cards of bucket 0 (no cards when \<open>B\<close> is empty), whatever the other buckets
  hold; on a day with \<open>0 < day < length B\<close> it returns the cards of bucket \<open>day\<close>; and on
  every day \<open>day \<ge> length B\<close> it returns no cards.
\<close>

theorem practice_selects_bucket_of_day:
  assumes "0 \<le> day"
  shows "(day = 0 \<longrightarrow> practice B day = (if B = [] then {||} else B ! 0))
       \<and> (0 < day \<and> day < int (length B) \<longrightarrow> practice B day = B ! nat day)
       \<and> (int (length B) \<le> day \<longrightarrow> practice B day = {||})"
  using assms by (cases B) (auto simp: practice_def arr_get_def)

theorem practice_selects_bucket_of_day_witness:
  "(0::int) \<le> 0 \<and> (0::int) \<le> 2 \<and> (0::int) \<le> 3
   \<and> practice [{|cardA|}, {|cardB|}, {|cardC|}] 0 = {|cardA|}
   \<and> practice [{|cardA|}, {|cardB|}, {|cardC|}] 2 = {|cardC|}
   \<and> practice [{|cardA|}, {|cardB|}, {|cardC|}] 3 = {||}"
proof -
  have d0: "(0::int) \<le> 0" and d2: "(0::int) \<le> 2" and d3: "(0::int) \<le> 3" by simp_all
  show ?thesis
    using practice_selects_bucket_of_day [OF d0, of "[{|cardA|}, {|cardB|}, {|cardC|}]"]
      practice_selects_bucket_of_day [OF d2, of "[{|cardA|}, {|cardB|}, {|cardC|}]"]
      practice_selects_bucket_of_day [OF d3, of "[{|cardA|}, {|cardB|}, {|cardC|}]"]
    by simp
qed

section \<open>Re-filing a card\<close>


subsection \<open>The loops of \<open>update\<close>\<close>

lemma update_fresh_key: "k \<notin> fst ` set al \<Longrightarrow> AList.update k v al = al @ [(k, v)]"
  by (induction al) auto

lemma copy_fold:
  "distinct (map fst (acc @ S)) \<Longrightarrow>
   fold (\<lambda>(bucketNum, cardSet) newBuckets. AList.update bucketNum cardSet newBuckets) S acc = acc @ S"
proof (induction S arbitrary: acc)
  case Nil
  then show ?case by simp
next
  case (Cons p S)
  obtain k s where p: "p = (k, s)" by (cases p)
  have "k \<notin> fst ` set acc" using Cons.prems by (auto simp: p)
  then have u: "AList.update k s acc = acc @ [(k, s)]" by (rule update_fresh_key)
  have "distinct (map fst ((acc @ [(k, s)]) @ S))" using Cons.prems by (simp add: p)
  then have "fold (\<lambda>(bucketNum, cardSet) newBuckets. AList.update bucketNum cardSet newBuckets) S
               (acc @ [(k, s)]) = (acc @ [(k, s)]) @ S"
    by (rule Cons.IH)
  then show ?case by (simp add: p u)
qed

lemma copyBuckets_id: "distinct (map fst S) \<Longrightarrow> copyBuckets S = S"
  using copy_fold [of "[]" S] by (simp add: copyBuckets_def)


lemma findCurrent_keys: "map fst (snd (findCurrent S c)) = map fst S"
  by (induction S) (auto split: prod.splits)






subsection \<open>The returned map\<close>

lemma map_of_numbered_Some [simp]:
  "map_of (numbered m) (Some k) = map_of m k"
  by (induction m) (auto simp: numbered_def)

lemma map_of_numbered_None [simp]:
  "map_of (numbered m) None = None"
  by (induction m) (auto simp: numbered_def)

lemma distinct_numbered:
  "distinct (map fst (numbered m)) = distinct (map fst m)"
proof -
  have keys: "map fst (numbered m) = map Some (map fst m)"
    by (induction m) (auto simp: numbered_def)
  have inj: "distinct (map Some xs) = distinct xs" for xs :: "'a list"
    by (induction xs) auto
  show ?thesis by (simp only: keys inj)
qed

text \<open>What \<open>update\<close> returns, for any map and any value of the difficulty.\<close>

lemma update_result:
  assumes fc: "findCurrent (copyBuckets S) c = (cur, found)"
  shows "\<exists>R. update S c d = Inr R
     \<and> (distinct (map fst S) \<longrightarrow> distinct (map fst R))
     \<and> (\<forall>x. map_of R x =
           (if x = chooseBucket d cur
            then Some (finsert c (case x of None \<Rightarrow> {||}
                                  | Some k \<Rightarrow> (case map_of found k of
                                                 None \<Rightarrow> {||} | Some s \<Rightarrow> s)))
            else (case x of None \<Rightarrow> None | Some k \<Rightarrow> map_of found k)))"
proof -
  define nb where "nb = chooseBucket d cur"
  define m where "m = numbered found"
  define m' where "m' = (if \<not> map_has m nb then AList.update nb {||} m else m)"
  define old where "old = (case nb of None \<Rightarrow> {||}
              | Some k \<Rightarrow> (case map_of found k of None \<Rightarrow> {||} | Some s \<Rightarrow> s))"
  have look: "map_of m' nb = Some old"
    by (cases nb) (auto simp: m'_def m_def old_def map_has_def update_conv' split: option.splits)
  have other: "map_of m' x = (case x of None \<Rightarrow> None | Some k \<Rightarrow> map_of found k)"
    if "x \<noteq> nb" for x
    using that by (auto simp: m'_def m_def map_has_def update_conv' split: option.splits)
  have res: "update S c d = Inr (AList.update nb (finsert c old) m')"
    unfolding update_def fc
    by (simp only: prod.case Let_def nb_def [symmetric] m_def [symmetric] m'_def [symmetric]
          look option.case)
  have keys: "map fst found = map fst (copyBuckets S)"
    using findCurrent_keys [of "copyBuckets S" c] by (simp add: fc)
  have dist: "distinct (map fst S) \<longrightarrow> distinct (map fst (AList.update nb (finsert c old) m'))"
  proof
    assume "distinct (map fst S)"
    then have "distinct (map fst found)" by (simp add: keys copyBuckets_id)
    then have "distinct (map fst m)" by (simp only: m_def distinct_numbered)
    then have "distinct (map fst m')" by (auto simp: m'_def intro: distinct_update)
    then show "distinct (map fst (AList.update nb (finsert c old) m'))" by (rule distinct_update)
  qed
  have maps: "\<forall>x. map_of (AList.update nb (finsert c old) m') x =
           (if x = nb then Some (finsert c old)
            else (case x of None \<Rightarrow> None | Some k \<Rightarrow> map_of found k))"
    by (simp add: update_conv' other)
  show ?thesis using res dist maps by (auto simp: nb_def old_def)
qed




text \<open>
  C5 claims that \<open>update\<close> fails with an invalid-input error on a value that is none of
  \<open>Wrong\<close>, \<open>Hard\<close>, \<open>Easy\<close>. On such a value the \<open>switch\<close> assigns nothing, and \<open>update\<close>
  returns a map in which the card is filed under the key \<open>undefined\<close>.
\<close>

theorem update_unlisted_counterexample:
  "update [(0, {||}), (1, {|cardA|})] cardA Unlisted
     = Inr [(Some 0, {||}), (Some 1, {||}), (None, {|cardA|})]"
  by (simp add: update_def copyBuckets_def map_has_def numbered_def)

text \<open>
  C5, amended: \<open>update\<close> has no invalid-input error. For every bucket map, card and
  value of the difficulty, one of \<open>Wrong\<close>, \<open>Hard\<close>, \<open>Easy\<close> or not, it returns a map and
  reports no error; values outside the three are kept out by the type \<open>AnswerDifficulty\<close>
  alone.
\<close>

theorem update_reports_no_error:
  "\<exists>R. update S c d = Inr R"
proof -
  obtain cur found where "findCurrent (copyBuckets S) c = (cur, found)"
    by (cases "findCurrent (copyBuckets S) c")
  then show ?thesis using update_result [of S c cur found d] by blast
qed

theorem update_reports_no_error_witness:
  "\<exists>R. update bucketsAB cardA Unlisted = Inr R"
  using update_reports_no_error [of bucketsAB cardA Unlisted] .

section \<open>\<open>update\<close> leaves its input alone\<close>

subsection \<open>Reading and writing the heap\<close>

lemma setAt_Some_length: "setAt H a = Some s \<Longrightarrow> a < length H"
  by (simp add: setAt_def split: if_splits)

lemma mapAt_Some_length: "mapAt H a = Some m \<Longrightarrow> a < length H"
  by (simp add: mapAt_def split: if_splits)

lemma extends_length: "take (length h) H = h \<Longrightarrow> length h \<le> length H"
  by (metis length_take min.cobounded1)

lemma extends_nth: "take (length h) H = h \<Longrightarrow> a < length h \<Longrightarrow> H ! a = h ! a"
  by (metis nth_take)

lemma extends_setAt: "take (length h) H = h \<Longrightarrow> a < length h \<Longrightarrow> setAt H a = setAt h a"
  using extends_length [of h H] extends_nth [of h H a] by (simp add: setAt_def)

lemma extends_mapAt: "take (length h) H = h \<Longrightarrow> a < length h \<Longrightarrow> mapAt H a = mapAt h a"
  using extends_length [of h H] extends_nth [of h H a] by (simp add: mapAt_def)

lemma setAt_update_other: "a \<noteq> b \<Longrightarrow> setAt (H[b := v]) a = setAt H a"
  by (simp add: setAt_def)

lemma setAt_update_same: "a < length H \<Longrightarrow> setAt (H[a := SetObj s]) a = Some s"
  by (simp add: setAt_def)

lemma mapAt_update_other: "a \<noteq> b \<Longrightarrow> mapAt (H[b := v]) a = mapAt H a"
  by (simp add: mapAt_def)

lemma mapAt_update_same: "a < length H \<Longrightarrow> mapAt (H[a := MapObj m]) a = Some m"
  by (simp add: mapAt_def)

lemma setAt_append: "a < length H \<Longrightarrow> setAt (H @ xs) a = setAt H a"
  by (simp add: setAt_def nth_append)

lemma mapAt_append: "a < length H \<Longrightarrow> mapAt (H @ xs) a = mapAt H a"
  by (simp add: mapAt_def nth_append)

subsection \<open>Entries and their contents\<close>

lemma update_values_subset: "snd ` set (AList.update k v m) \<subseteq> insert v (snd ` set m)"
  by (induction m) auto

lemma distinct_values_update:
  "distinct (map snd m) \<Longrightarrow> v \<notin> snd ` set m \<Longrightarrow> distinct (map snd (AList.update k v m))"
proof (induction m)
  case Nil
  then show ?case by simp
next
  case (Cons p m)
  have "snd p \<notin> snd ` set (AList.update k v m)"
    using Cons.prems update_values_subset [of k v m] by auto
  then show ?case using Cons by auto
qed

lemma list_all2_update:
  assumes "list_all2 (\<lambda>(k, a) (k', s). k' = k \<and> Q a s) m R" "Q a s"
  shows "list_all2 (\<lambda>(k, a) (k', s). k' = k \<and> Q a s) (AList.update key a m) (AList.update key s R)"
  using assms(1)
proof (induction rule: list_all2_induct)
  case Nil
  then show ?case using assms(2) by simp
next
  case (Cons x xs y ys)
  then show ?case using assms(2) by (cases x; cases y) auto
qed

lemma list_all2_keys:
  "list_all2 (\<lambda>(k, a) (k', s). k' = k \<and> Q a s) m R \<Longrightarrow> map fst R = map fst m"
  by (induction rule: list_all2_induct) auto

lemma list_all2_values:
  "list_all2 (\<lambda>(k, a) (k', s). k' = k \<and> Q a s) m R \<Longrightarrow> (k, a) \<in> set m \<Longrightarrow> \<exists>s. Q a s"
  by (induction rule: list_all2_induct) auto

lemma rel_lookup:
  "list_all2 (\<lambda>(k, a) (k', s). k' = k \<and> Q a s) m R \<Longrightarrow> map_of R key = Some s \<Longrightarrow>
   \<exists>a. map_of m key = Some a \<and> Q a s"
  by (induction rule: list_all2_induct) (auto split: if_splits)

lemma rel_add:
  assumes "list_all2 (\<lambda>(k, a) (k', s). k' = k \<and> setAt H a = Some s) m R"
    and "distinct (map snd m)" and "map_of m key = Some a" and "a < length H"
  shows "list_all2 (\<lambda>(k, a') (k', s). k' = k \<and> setAt (H[a := SetObj v]) a' = Some s) m
           (AList.update key v R)"
  using assms
proof (induction rule: list_all2_induct)
  case Nil
  then show ?case by simp
next
  case (Cons x m y R)
  obtain k0 a0 where x: "x = (k0, a0)" by (cases x)
  obtain k1 s0 where y: "y = (k1, s0)" by (cases y)
  have k: "k1 = k0" and s0: "setAt H a0 = Some s0" using Cons.hyps(1) by (simp_all add: x y)
  have fresh: "a0 \<notin> snd ` set m" and dist: "distinct (map snd m)"
    using Cons.prems by (auto simp: x)
  show ?case
  proof (cases "k0 = key")
    case True
    then have a0: "a0 = a" using Cons.prems(2) by (simp add: x)
    have other: "setAt (H[a := SetObj v]) b = setAt H b" if "(kb, b) \<in> set m" for kb b
    proof -
      have "b \<in> snd ` set m" using that by force
      then have "b \<noteq> a" using fresh a0 by blast
      then show ?thesis by (rule setAt_update_other)
    qed
    have "list_all2 (\<lambda>(k, a') (k', s). k' = k \<and> setAt (H[a := SetObj v]) a' = Some s) m R"
      using Cons.hyps(2) by (rule list.rel_mono_strong) (auto simp: other)
    then show ?thesis using True a0 Cons.prems(3) by (simp add: x y k setAt_update_same)
  next
    case False
    then have lk: "map_of m key = Some a" using Cons.prems(2) by (simp add: x)
    then have "a \<in> snd ` set m" by (force dest: map_of_SomeD)
    then have "a0 \<noteq> a" using fresh by blast
    then have "setAt (H[a := SetObj v]) a0 = Some s0" using s0 by (simp add: setAt_update_other)
    moreover have "list_all2 (\<lambda>(k, a') (k', s). k' = k \<and> setAt (H[a := SetObj v]) a' = Some s) m
           (AList.update key v R)"
      using Cons.IH [OF dist lk Cons.prems(3)] .
    ultimately show ?thesis using False by (simp add: x y k)
  qed
qed

lemma numbered_rel:
  "list_all2 (\<lambda>(k, a) (k', s). k' = k \<and> Q a s) m (numbered S1)
   = list_all2 (\<lambda>(k, a) (k', s). k = Some k' \<and> Q a s) m S1"
  by (auto simp: numbered_def list_all2_conv_all_nth case_prod_unfold)

lemma map_has_keys: "map fst R = map fst m \<Longrightarrow> map_has m k = map_has R k"
proof -
  assume "map fst R = map fst m"
  then have "fst ` set R = fst ` set m" by (metis set_map)
  then show ?thesis by (simp add: map_has_def map_of_eq_None_iff)
qed

lemma readEntries_rel:
  "readEntries H m = Some R \<longleftrightarrow> list_all2 (\<lambda>(k, a) (k', s). k' = k \<and> setAt H a = Some s) m R"
proof (induction m arbitrary: R)
  case Nil
  then show ?case by auto
next
  case (Cons x m)
  obtain k a where x: "x = (k, a)" by (cases x)
  show ?case
    by (cases R) (auto simp: x Cons.IH [symmetric] split: Option.bind_splits)
qed

lemma readMap_frame:
  assumes "readMap h b = Some R" and ext: "take (length h) H = h"
  shows "readMap H b = Some R"
proof -
  obtain m where mp: "mapAt h b = Some m" and re: "readEntries h m = Some R"
    using assms(1) by (auto simp: readMap_def split: Option.bind_splits)
  have "b < length h" using mp by (rule mapAt_Some_length)
  then have mp': "mapAt H b = Some m" using extends_mapAt [OF ext] mp by simp
  have rel: "list_all2 (\<lambda>(k, a) (k', s). k' = k \<and> setAt h a = Some s) m R"
    using re by (simp add: readEntries_rel)
  have "list_all2 (\<lambda>(k, a) (k', s). k' = k \<and> setAt H a = Some s) m R"
    using rel
  proof (rule list.rel_mono_strong)
    fix x :: "int option \<times> addr" and y :: "int option \<times> flashcard fset"
    obtain k a where x: "x = (k, a)" by (cases x)
    obtain k' s where y: "y = (k', s)" by (cases y)
    assume "(case x of (k, a) \<Rightarrow> \<lambda>(k', s). k' = k \<and> setAt h a = Some s) y"
    then have k: "k' = k" and s: "setAt h a = Some s" by (simp_all add: x y)
    have "a < length h" using s by (rule setAt_Some_length)
    then have "setAt H a = Some s" using extends_setAt [OF ext] s by simp
    then show "(case x of (k, a) \<Rightarrow> \<lambda>(k', s). k' = k \<and> setAt H a = Some s) y"
      using k by (simp add: x y)
  qed
  then show ?thesis using mp' by (simp add: readMap_def readEntries_rel)
qed

subsection \<open>The steps of \<open>update\<close> keep the new map apart from the old heap\<close>

lemma freshMap_init: "freshMap h (h @ [MapObj []]) (length h) [] []"
  by (simp add: freshMap_def mapAt_def)

lemma freshMap_readMap: "freshMap h H nb m R \<Longrightarrow> readMap H nb = Some R"
  by (simp add: freshMap_def readMap_def readEntries_rel)

lemma freshMap_setNew:
  assumes "freshMap h H nb m R"
  shows "\<exists>H' m'. setNew H nb key s = Some H' \<and> freshMap h H' nb m' (AList.update key s R)"
proof -
  have ext: "take (length h) H = h" and nb: "length h \<le> nb" and mp: "mapAt H nb = Some m"
    and dk: "distinct (map fst m)" and dv: "distinct (map snd m)"
    and ad: "\<forall>a \<in> snd ` set m. length h \<le> a \<and> a \<noteq> nb"
    and rel: "list_all2 (\<lambda>(k, a) (k', s). k' = k \<and> setAt H a = Some s) m R"
    using assms by (simp_all add: freshMap_def)
  have nbl: "nb < length H" using mp by (rule mapAt_Some_length)
  let ?a = "length H"
  let ?m' = "AList.update key ?a m"
  let ?H' = "(H @ [SetObj s])[nb := MapObj ?m']"
  have run: "setNew H nb key s = Some ?H'"
    using mp nbl by (simp add: setNew_def alloc_def mapAt_append)
  have old: "\<forall>a \<in> snd ` set m. a < length H"
  proof
    fix a assume "a \<in> snd ` set m"
    then obtain k where "(k, a) \<in> set m" by auto
    then obtain s where "setAt H a = Some s" using list_all2_values [OF rel] by blast
    then show "a < length H" by (rule setAt_Some_length)
  qed
  have ext': "take (length h) ?H' = h" using ext nb nbl by simp
  have mp': "mapAt ?H' nb = Some ?m'" using nbl by (simp add: mapAt_update_same)
  have dk': "distinct (map fst ?m')" using dk by (rule distinct_update)
  have dv': "distinct (map snd ?m')" using dv old by (intro distinct_values_update) auto
  have ad': "\<forall>a \<in> snd ` set ?m'. length h \<le> a \<and> a \<noteq> nb"
  proof
    fix a assume "a \<in> snd ` set ?m'"
    then have "a = ?a \<or> a \<in> snd ` set m" using update_values_subset [of key ?a m] by blast
    then show "length h \<le> a \<and> a \<noteq> nb" using ad nb nbl by auto
  qed
  have reads: "setAt ?H' a = setAt H a" if "a \<in> snd ` set m" for a
  proof -
    have "a \<noteq> nb" "a < length H" using that ad old by blast+
    then show ?thesis by (simp add: setAt_update_other setAt_append)
  qed
  have "list_all2 (\<lambda>(k, a) (k', s). k' = k \<and> setAt ?H' a = Some s) m R"
    using rel by (rule list.rel_mono_strong) (auto simp: reads rev_image_eqI)
  moreover have "setAt ?H' ?a = Some s" using nbl by (simp add: setAt_def nth_append)
  ultimately have rel': "list_all2 (\<lambda>(k, a) (k', s). k' = k \<and> setAt ?H' a = Some s) ?m'
      (AList.update key s R)"
    by (rule list_all2_update)
  have "freshMap h ?H' nb ?m' (AList.update key s R)"
    unfolding freshMap_def using ext' nb mp' dk' dv' ad' rel' by blast
  then show ?thesis using run by blast
qed

lemma freshMap_copyLoop:
  assumes "freshMap h H nb m R"
    and "list_all2 (\<lambda>(k, a) (k', s). k' = k \<and> a < length h \<and> setAt h a = Some s) E RE"
  shows "\<exists>H' m'. copyLoop E nb H = Some H'
           \<and> freshMap h H' nb m' (fold (\<lambda>(k, s) acc. AList.update k s acc) RE R)"
  using assms(2) assms(1)
proof (induction arbitrary: H m R rule: list_all2_induct)
  case Nil
  then show ?case by auto
next
  case (Cons x E y RE)
  obtain k a where x: "x = (k, a)" by (cases x)
  obtain k' s where y: "y = (k', s)" by (cases y)
  have k: "k' = k" and a: "a < length h" and s: "setAt h a = Some s"
    using Cons.hyps(1) by (simp_all add: x y)
  have ext: "take (length h) H = h" using Cons.prems by (simp add: freshMap_def)
  have rd: "setAt H a = Some s" using extends_setAt [OF ext a] s by simp
  obtain H1 m1 where st: "setNew H nb k s = Some H1" and f1: "freshMap h H1 nb m1 (AList.update k s R)"
    using freshMap_setNew [OF Cons.prems] by blast
  obtain H' m' where "copyLoop E nb H1 = Some H'"
    "freshMap h H' nb m' (fold (\<lambda>(k, s) acc. AList.update k s acc) RE (AList.update k s R))"
    using Cons.IH [OF f1] by blast
  then show ?case using rd st by (auto simp: x y k)
qed

lemma findLoop_findCurrent:
  assumes "list_all2 (\<lambda>(k, a) (k', s). k = Some k' \<and> setAt H a = Some s) es S1"
    and "distinct (map snd es)"
  shows "\<exists>H'. findLoop es c H = Some (fst (findCurrent S1 c), H')
           \<and> length H' = length H
           \<and> (\<forall>x. x \<notin> snd ` set es \<longrightarrow> H' ! x = H ! x)
           \<and> list_all2 (\<lambda>(k, a) (k', s). k = Some k' \<and> setAt H' a = Some s) es
               (snd (findCurrent S1 c))"
  using assms
proof (induction rule: list_all2_induct)
  case Nil
  then show ?case by simp
next
  case (Cons x es y S1)
  obtain k a where x: "x = (k, a)" by (cases x)
  obtain k' s where y: "y = (k', s)" by (cases y)
  have k: "k = Some k'" and s: "setAt H a = Some s" using Cons.hyps(1) by (simp_all add: x y)
  have al: "a < length H" using s by (rule setAt_Some_length)
  have fresh: "a \<notin> snd ` set es" and dist: "distinct (map snd es)"
    using Cons.prems by (auto simp: x)
  show ?case
  proof (cases "c |\<in>| s")
    case True
    let ?H' = "H[a := SetObj (s |-| {|c|})]"
    have other: "setAt ?H' b = setAt H b" if "(kb, b) \<in> set es" for kb b
    proof -
      have "b \<in> snd ` set es" using that by force
      then have "b \<noteq> a" using fresh by blast
      then show ?thesis by (rule setAt_update_other)
    qed
    have "list_all2 (\<lambda>(k, a) (k', s). k = Some k' \<and> setAt ?H' a = Some s) es S1"
      using Cons.hyps(2) by (rule list.rel_mono_strong) (auto simp: other)
    then show ?thesis using True s al by (auto simp: x y k setAt_update_same)
  next
    case False
    obtain H' where run: "findLoop es c H = Some (fst (findCurrent S1 c), H')"
      and len: "length H' = length H"
      and same: "\<forall>x. x \<notin> snd ` set es \<longrightarrow> H' ! x = H ! x"
      and rel: "list_all2 (\<lambda>(k, a) (k', s). k = Some k' \<and> setAt H' a = Some s) es
               (snd (findCurrent S1 c))"
      using Cons.IH [OF dist] by blast
    have "H' ! a = H ! a" using same fresh by blast
    then have "setAt H' a = setAt H a" by (simp add: setAt_def len)
    then have "setAt H' a = Some s" using s by simp
    then show ?thesis using False s run len same rel
      by (auto simp: x y k split: prod.splits)
  qed
qed

lemma freshMap_findLoop:
  assumes "freshMap h H nb m (numbered S1)" and fc: "findCurrent S1 c = (cur, found)"
  shows "\<exists>H'. findLoop m c H = Some (cur, H') \<and> freshMap h H' nb m (numbered found)"
proof -
  have ext: "take (length h) H = h" and nb: "length h \<le> nb" and mp: "mapAt H nb = Some m"
    and dk: "distinct (map fst m)" and dv: "distinct (map snd m)"
    and ad: "\<forall>a \<in> snd ` set m. length h \<le> a \<and> a \<noteq> nb"
    and rel: "list_all2 (\<lambda>(k, a) (k', s). k = Some k' \<and> setAt H a = Some s) m S1"
    using assms(1) by (simp_all add: freshMap_def numbered_rel)
  obtain H' where run: "findLoop m c H = Some (cur, H')"
    and len: "length H' = length H"
    and same: "\<forall>x. x \<notin> snd ` set m \<longrightarrow> H' ! x = H ! x"
    and rel': "list_all2 (\<lambda>(k, a) (k', s). k = Some k' \<and> setAt H' a = Some s) m found"
    using findLoop_findCurrent [OF rel dv, of c] by (auto simp: fc)
  have hl: "length h \<le> length H" using ext by (rule extends_length)
  have "take (length h) H' = take (length h) H"
  proof (rule nth_take_lemma)
    show "length h \<le> length H'" "length h \<le> length H" using hl len by simp_all
    fix i
    show "i < length h \<longrightarrow> H' ! i = H ! i"
    proof
      assume "i < length h"
      then have "i \<notin> snd ` set m" using ad by auto
      then show "H' ! i = H ! i" using same by blast
    qed
  qed
  then have ext': "take (length h) H' = h" using ext by simp
  have "nb \<notin> snd ` set m" using ad by blast
  then have "H' ! nb = H ! nb" using same by blast
  then have "mapAt H' nb = mapAt H nb" by (simp add: mapAt_def len)
  then have mp': "mapAt H' nb = Some m" using mp by simp
  have "freshMap h H' nb m (numbered found)"
    unfolding freshMap_def numbered_rel using ext' nb mp' dk dv ad rel' by blast
  then show ?thesis using run by blast
qed

lemma freshMap_addTo:
  assumes "freshMap h H nb m R" and "map_of R key = Some s"
  shows "\<exists>H'. addTo H nb key c = Some H' \<and> freshMap h H' nb m (AList.update key (finsert c s) R)"
proof -
  have ext: "take (length h) H = h" and nb: "length h \<le> nb" and mp: "mapAt H nb = Some m"
    and dk: "distinct (map fst m)" and dv: "distinct (map snd m)"
    and ad: "\<forall>a \<in> snd ` set m. length h \<le> a \<and> a \<noteq> nb"
    and rel: "list_all2 (\<lambda>(k, a) (k', s). k' = k \<and> setAt H a = Some s) m R"
    using assms(1) by (simp_all add: freshMap_def)
  obtain a where lk: "map_of m key = Some a" and rd: "setAt H a = Some s"
    using rel_lookup [OF rel assms(2)] by blast
  have al: "a < length H" using rd by (rule setAt_Some_length)
  have "a \<in> snd ` set m" using lk by (force dest: map_of_SomeD)
  then have a: "length h \<le> a" "a \<noteq> nb" using ad by blast+
  let ?H' = "H[a := SetObj (finsert c s)]"
  have run: "addTo H nb key c = Some ?H'" using mp lk rd by (simp add: addTo_def)
  have ext': "take (length h) ?H' = h" using ext a(1) by simp
  have mp': "mapAt ?H' nb = Some m" using mp a(2) by (simp add: mapAt_update_other)
  have rel': "list_all2 (\<lambda>(k, a') (k', s). k' = k \<and> setAt ?H' a' = Some s) m
           (AList.update key (finsert c s) R)"
    using rel dv lk al by (rule rel_add)
  have "freshMap h ?H' nb m (AList.update key (finsert c s) R)"
    unfolding freshMap_def using ext' nb mp' dk dv ad rel' by blast
  then show ?thesis using run by blast
qed

text \<open>
  C6: let the heap \<open>h\<close> hold at address \<open>b\<close> a \<open>Map\<close> with the contents of the bucket map
  \<open>S\<close>, each key once. For every card and every value of the difficulty, \<open>update\<close> returns, and leaves
  every object of \<open>h\<close> as it was (the heap afterwards starts with \<open>h\<close>), so the map at \<open>b\<close>
  and each of its sets still hold \<open>S\<close>. The returned map is an object that was not in \<open>h\<close>,
  its sets are objects that were not in \<open>h\<close>, no two the same, and it holds what the
  value-level \<open>update S c d\<close> computes.
\<close>

theorem updateHeap_leaves_input_unchanged:
  assumes "readMap h b = Some (numbered S)" and "distinct (map fst S)"
  shows "\<exists>r h'. updateHeap h b c d = Some (r, h')
      \<and> take (length h) h' = h
      \<and> readMap h' b = Some (numbered S)
      \<and> length h \<le> r
      \<and> (\<exists>m. mapAt h' r = Some m \<and> distinct (map snd m)
              \<and> (\<forall>a \<in> snd ` set m. length h \<le> a \<and> a \<noteq> r))
      \<and> (\<exists>R. update S c d = Inr R \<and> readMap h' r = Some R)"
proof -
  obtain E where mp: "mapAt h b = Some E" and re: "readEntries h E = Some (numbered S)"
    using assms(1) by (auto simp: readMap_def split: Option.bind_splits)
  have bl: "b < length h" using mp by (rule mapAt_Some_length)
  have "list_all2 (\<lambda>(k, a) (k', s). k' = k \<and> setAt h a = Some s) E (numbered S)"
    using re by (simp add: readEntries_rel)
  then have rel: "list_all2 (\<lambda>(k, a) (k', s). k' = k \<and> a < length h \<and> setAt h a = Some s) E
      (numbered S)"
    by (rule list.rel_mono_strong) (auto dest: setAt_Some_length)
  let ?nb = "length h"
  let ?H1 = "h @ [MapObj []]"
  have mp1: "mapAt ?H1 b = Some E" using mp bl by (simp add: mapAt_append)
  have dn: "distinct (map fst ([] @ numbered S))"
    using assms(2) by (simp add: distinct_numbered)
  have cp: "fold (\<lambda>(k, s) acc. AList.update k s acc) (numbered S) [] = numbered S"
    using copy_fold [OF dn] by simp
  obtain H2 m2 where run2: "copyLoop E ?nb ?H1 = Some H2" and f2: "freshMap h H2 ?nb m2 (numbered S)"
    using freshMap_copyLoop [OF freshMap_init rel] by (auto simp: cp)
  have mp2: "mapAt H2 ?nb = Some m2" using f2 by (simp add: freshMap_def)
  obtain cur found where fc: "findCurrent (copyBuckets S) c = (cur, found)"
    by (cases "findCurrent (copyBuckets S) c")
  then have fc': "findCurrent S c = (cur, found)" using assms(2) by (simp add: copyBuckets_id)
  obtain H3 where run3: "findLoop m2 c H2 = Some (cur, H3)"
    and f3: "freshMap h H3 ?nb m2 (numbered found)"
    using freshMap_findLoop [OF f2 fc'] by blast
  define nbk where "nbk = chooseBucket d cur"
  define R4 where "R4 = (if \<not> map_has (numbered found) nbk
                         then AList.update nbk {||} (numbered found) else numbered found)"
  have "map fst (numbered found) = map fst m2"
    using f3 by (auto simp: freshMap_def dest: list_all2_keys)
  then have has: "map_has m2 nbk = map_has (numbered found) nbk" by (rule map_has_keys)
  obtain H4 m4 where run4: "(if \<not> map_has m2 nbk then setNew H3 ?nb nbk {||} else Some H3) = Some H4"
    and f4: "freshMap h H4 ?nb m4 R4"
  proof (cases "map_has m2 nbk")
    case True
    then show ?thesis using that [of H3 m2] f3 has by (simp add: R4_def)
  next
    case False
    obtain H' m' where "setNew H3 ?nb nbk {||} = Some H'"
      "freshMap h H' ?nb m' (AList.update nbk {||} (numbered found))"
      using freshMap_setNew [OF f3] by blast
    then show ?thesis using that [of H' m'] False has by (simp add: R4_def)
  qed
  obtain s where lk: "map_of R4 nbk = Some s"
    by (cases "map_has (numbered found) nbk") (auto simp: R4_def map_has_def update_conv')
  have pure: "update S c d = Inr (AList.update nbk (finsert c s) R4)"
    unfolding update_def fc
    by (simp only: prod.case Let_def nbk_def [symmetric] R4_def [symmetric] lk option.case)
  obtain H5 where run5: "addTo H4 ?nb nbk c = Some H5"
    and f5: "freshMap h H5 ?nb m4 (AList.update nbk (finsert c s) R4)"
    using freshMap_addTo [OF f4 lk] by blast
  have run: "updateHeap h b c d = Some (?nb, H5)"
    by (simp add: updateHeap_def alloc_def mp1 run2 mp2 run3 nbk_def [symmetric] run4 run5)
  have ext: "take (length h) H5 = h" using f5 by (simp add: freshMap_def)
  have old: "readMap H5 b = Some (numbered S)" using assms(1) ext by (rule readMap_frame)
  have new: "mapAt H5 ?nb = Some m4 \<and> distinct (map snd m4)
              \<and> (\<forall>a \<in> snd ` set m4. length h \<le> a \<and> a \<noteq> ?nb)"
    using f5 by (simp add: freshMap_def)
  have rd: "readMap H5 ?nb = Some (AList.update nbk (finsert c s) R4)"
    using f5 by (rule freshMap_readMap)
  show ?thesis using run ext old new pure rd by blast
qed

theorem updateHeap_leaves_input_unchanged_witness:
  "readMap heapEx 2 = Some (numbered bucketsAB) \<and> distinct (map fst bucketsAB)
   \<and> (\<exists>r h'. updateHeap heapEx 2 cardA Easy = Some (r, h')
         \<and> take 3 h' = heapEx \<and> readMap h' 2 = Some (numbered bucketsAB) \<and> 3 \<le> r)"
proof -
  have r: "readMap heapEx 2 = Some (numbered bucketsAB)"
    by (simp add: readMap_def mapAt_def setAt_def heapEx_def numbered_def bucketsAB_def)
  have d: "distinct (map fst bucketsAB)" by (simp add: bucketsAB_def)
  have l: "length heapEx = 3" by (simp add: heapEx_def)
  show ?thesis using r d updateHeap_leaves_input_unchanged [OF r d, of cardA Easy]
    unfolding l by blast
qed

section \<open>Hints\<close>

text \<open>
  C10: \<open>getHint c\<close> is the empty string when the back of \<open>c\<close> is missing or empty, and
  when the hint of \<open>c\<close> is missing or empty; otherwise it is the first character (UTF-16
  code unit) of the back of \<open>c\<close>, whatever the hint says.
\<close>

theorem getHint_first_character_of_back:
  "((back c = None \<or> back c = Some [] \<or> hint c = None \<or> hint c = Some []) \<longrightarrow> getHint c = [])
   \<and> (\<forall>b h. back c = Some b \<and> b \<noteq> [] \<and> hint c = Some h \<and> h \<noteq> [] \<longrightarrow> getHint c = [hd b])"
  by (auto simp: getHint_def falsy_def str_length_def charAt_def hd_conv_nth split: option.splits)

theorem getHint_first_character_of_back_witness:
  "getHint cardA = [0x41] \<and> getHint cardC = []"
  using getHint_first_character_of_back [of cardA] getHint_first_character_of_back [of cardC]
  by (simp add: cardA_def cardC_def)

section \<open>Progress statistics\<close>




















text \<open>
  C9: for every bucket map and any two histories, \<open>computeProgress\<close> returns the same
  result, all four statistics included: they depend on the bucket map alone.
\<close>

theorem computeProgress_ignores_history:
  "computeProgress cardsOf S h1 = computeProgress cardsOf S h2"
  by (simp add: computeProgress_def)

theorem computeProgress_ignores_history_witness:
  "computeProgress cardsEx bucketsABC [] =
   computeProgress cardsEx bucketsABC [\<lparr>card_h = cardA, difficulty = Wrong, timestamp = 0\<rparr>]"
  using computeProgress_ignores_history
    [of cardsEx bucketsABC "[]" "[\<lparr>card_h = cardA, difficulty = Wrong, timestamp = 0\<rparr>]"] .

end
